theory Spec2Isabelle
  imports Main "HOL-Library.Word"
begin

section \<open>Package cmd: the command state and its lock list\<close>

text \<open>
  A \<open>has.Inventory\<close> interface value is either nil or a reference to an inventory.
  References are modelled by a type \<open>'h\<close> of identities (Go compares interface values
  holding pointers by identity), a possibly-nil handle by \<open>'h option\<close>. The method
  \<open>LockID\<close> lives in package attr and is a parameter \<open>LockID :: 'h \<Rightarrow> 'k\<close> into a
  linear order (uint64 in WolfMUD).

  The struct \<open>state\<close>; the message buffers play no part in the lock handling and are
  left out. The field \<open>where\<close> is spelled \<open>where'\<close> (\<open>where\<close> is a keyword).
\<close>

record ('t, 'h) state =
  actor :: 't
  where' :: "'h option"
  input :: "string list"
  cmd :: string
  words :: "string list"
  ok :: bool
  locks :: "'h list"

text \<open>\<open>CanLock\<close>: the range loop over \<open>s.locks\<close> with its early return.\<close>

fun CanLock_loop :: "'h list \<Rightarrow> 'h \<Rightarrow> bool" where
  "CanLock_loop [] i = False"
| "CanLock_loop (l # ls) i = (if i = l then True else CanLock_loop ls i)"

definition CanLock :: "('t, 'h) state \<Rightarrow> 'h \<Rightarrow> bool" where
  "CanLock s i = CanLock_loop (locks s) i"

text \<open>
  Go's \<open>copy(a[dlo:dhi], a[slo:shi])\<close> on one backing array: it copies
  \<open>min (dhi - dlo) (shi - slo)\<close> elements and behaves like memmove, so the source
  elements are read before any is overwritten.
\<close>

definition copy_within :: "'a list \<Rightarrow> nat \<Rightarrow> nat \<Rightarrow> nat \<Rightarrow> nat \<Rightarrow> 'a list" where
  "copy_within a dlo dhi slo shi =
     (let n = min (dhi - dlo) (shi - slo)
      in take dlo a @ take n (drop slo a) @ drop (dlo + n) a)"

text \<open>
  The insertion loop of \<open>state.AddLock\<close>:
  \<^verbatim>\<open>for x := 0; x < l; x++ { if s.locks[x].LockID() > u { copy(...); s.locks[x] = i; break } }\<close>
\<close>

function AddLock_loop ::
  "('h \<Rightarrow> 'k::linorder) \<Rightarrow> 'h \<Rightarrow> 'k \<Rightarrow> nat \<Rightarrow> nat \<Rightarrow> 'h list \<Rightarrow> 'h list" where
  "AddLock_loop LockID i u l x ls =
     (if x < l then
        (if LockID (ls ! x) > u then (copy_within ls (x + 1) l x (l - 1))[x := i]
         else AddLock_loop LockID i u l (x + 1) ls)
      else ls)"
  by pat_completeness auto
termination
  by (relation "measure (\<lambda>(LockID, i, u, l, x, ls). l - x)") auto

definition AddLock ::
  "('h \<Rightarrow> 'k::linorder) \<Rightarrow> ('t, 'h) state \<Rightarrow> 'h option \<Rightarrow> ('t, 'h) state" where
  "AddLock LockID s i' =
     (case i' of
        None \<Rightarrow> s
      | Some i \<Rightarrow>
          if CanLock s i then s
          else
            (let ls = locks s @ [i]; l = length ls
             in if l = 1 then s\<lparr>locks := ls\<rparr>
                else s\<lparr>locks := AddLock_loop LockID i (LockID i) l 0 ls\<rparr>))"

text \<open>A sequence of \<open>AddLock\<close> calls with non-nil handles, in call order.\<close>

fun AddLocks ::
  "('h \<Rightarrow> 'k::linorder) \<Rightarrow> ('t, 'h) state \<Rightarrow> 'h list \<Rightarrow> ('t, 'h) state" where
  "AddLocks LockID s [] = s"
| "AddLocks LockID s (h # hs) = AddLocks LockID (AddLock LockID s (Some h)) hs"

text \<open>A fresh state as \<open>NewState\<close> builds it for an actor that is nowhere: no locks.\<close>

definition state0 :: "(unit, nat) state" where
  "state0 = \<lparr>actor = (), where' = None, input = [], cmd = [], words = [], ok = False, locks = []\<rparr>"

subsection \<open>NewState\<close>

text \<open>
  \<open>strings.Fields\<close> and \<open>strings.ToUpper\<close> belong to the Go standard library and
  \<open>attr.FindLocate\<close> to package attr; \<open>NewState\<close> takes them as parameters.
  \<open>FindLocate t\<close> is \<open>None\<close> when the thing has no Locate attribute (the nil case of
  the source) and \<open>Some w\<close> when it has one whose \<open>Where()\<close> is the possibly-nil
  inventory \<open>w\<close>.
\<close>

definition NewState ::
  "('h \<Rightarrow> 'k::linorder) \<Rightarrow> (string \<Rightarrow> string list) \<Rightarrow> (string \<Rightarrow> string) \<Rightarrow>
   ('t \<Rightarrow> 'h option option) \<Rightarrow> 't \<Rightarrow> string \<Rightarrow> ('t, 'h) state" where
  "NewState LockID Fields ToUpper FindLocate t text =
     (let s0 = \<lparr>actor = t, where' = None, input = [], cmd = [], words = [], ok = False,
                 locks = []\<rparr>;
          s1 = s0\<lparr>input := Fields text\<rparr>;
          s2 = s1\<lparr>words := map ToUpper (input s1)\<rparr>;
          l = length (words s2);
          s3 = (if l > 1 then
                  s2\<lparr>cmd := words s2 ! 0, words := drop 1 (words s2), input := drop 1 (input s2)\<rparr>
                else if l > 0 then s2\<lparr>cmd := words s2 ! 0\<rparr>
                else s2)
      in case FindLocate t of
           None \<Rightarrow> s3
         | Some w \<Rightarrow> AddLock LockID (s3\<lparr>where' := w\<rparr>) w)"

text \<open>
  Executable stand-ins for the two library functions on ASCII text: white space is
  tab, line feed, vertical tab, form feed, carriage return and space; upper-casing maps
  the letters a to z.
\<close>

definition isSpace :: "char \<Rightarrow> bool" where
  "isSpace c = (c \<in> set [CHR 0x09, CHR 0x0A, CHR 0x0B, CHR 0x0C, CHR 0x0D, CHR '' ''])"

fun Fields_loop :: "string \<Rightarrow> string \<Rightarrow> string list" where
  "Fields_loop [] w = (if w = [] then [] else [w])"
| "Fields_loop (c # cs) w =
     (if isSpace c then (if w = [] then Fields_loop cs [] else w # Fields_loop cs [])
      else Fields_loop cs (w @ [c]))"

definition Fields :: "string \<Rightarrow> string list" where
  "Fields text = Fields_loop text []"

definition upperChar :: "char \<Rightarrow> char" where
  "upperChar c =
     (if of_char c \<ge> (97::nat) \<and> of_char c \<le> (122::nat) then char_of (of_char c - (32::nat))
      else c)"

definition ToUpper :: "string \<Rightarrow> string" where
  "ToUpper text = map upperChar text"

subsection \<open>sync and parse\<close>

text \<open>
  The dispatcher is a Go function value on the state. It returns normally, early or
  not, or it panics; either way it may have changed the state.
\<close>

datatype 's outcome = Returned 's | Panicked 's

text \<open>What an observer of the inventories' mutexes and of the dispatcher sees.\<close>

datatype 'h event = Lock 'h | Unlock 'h | Call

text \<open>
  The range loop of \<open>sync\<close>: each inventory of the list is locked and its unlock is
  pushed on the defer stack of the call (most recent first).
\<close>

fun sync_loop :: "'h list \<Rightarrow> 'h event list \<Rightarrow> 'h list \<Rightarrow> 'h event list \<times> 'h list" where
  "sync_loop [] log defers = (log, defers)"
| "sync_loop (l # ls) log defers = sync_loop ls (log @ [Lock l]) (l # defers)"

text \<open>Leaving the function, by return or by panic, runs the deferred calls last in, first out.\<close>

fun run_deferred :: "'h list \<Rightarrow> 'h event list \<Rightarrow> 'h event list" where
  "run_deferred [] log = log"
| "run_deferred (l # defers) log = run_deferred defers (log @ [Unlock l])"

definition sync ::
  "(('t, 'h) state \<Rightarrow> ('t, 'h) state outcome) \<Rightarrow> ('t, 'h) state \<Rightarrow>
   ('t, 'h) state outcome \<times> 'h event list" where
  "sync dispatcher s =
     (let (log, defers) = sync_loop (locks s) [] [];
          r = dispatcher s
      in (r, run_deferred defers (log @ [Call])))"




fun held :: "'h event list \<Rightarrow> 'h \<Rightarrow> int" where
  "held [] h = 0"
| "held (Lock h' # log) h = (if h' = h then 1 else 0) + held log h"
| "held (Unlock h' # log) h = held log h - (if h' = h then 1 else 0)"
| "held (Call # log) h = held log h"


definition veto :: "(unit, nat) state \<Rightarrow> (unit, nat) state outcome" where
  "veto s = Returned (s\<lparr>ok := False\<rparr>)"

section \<open>Package command: the Command and its buffers\<close>

text \<open>
  A \<open>thing.Interface\<close> value is a reference to a thing, of a type \<open>'t\<close> of identities,
  or nil (\<open>'t option\<close> where nil can occur). Package thing is an external collaborator:
  \<open>UniqueId\<close> is a parameter into a linear order, and whether the issuer satisfies
  \<open>messaging.Responder\<close> or \<open>messaging.Broadcaster\<close> is given by two predicates.
  The values passed for the verbs of a format string have a type \<open>'v\<close>.
\<close>

record 'v responseBuffer =
  format :: "string list"
  any :: "'v list"

text \<open>\<open>broadcastBuffer\<close> embeds \<open>responseBuffer\<close>.\<close>

record ('v, 't) broadcastBuffer = "'v responseBuffer" +
  omit :: "'t list"

record ('t, 'v) Command =
  Issuer :: 't
  Verb :: string
  Nouns :: "string list"
  Target :: string
  Locks :: "'t list"
  locksModified :: bool
  response :: "'v responseBuffer"
  broadcast :: "('v, 't) broadcastBuffer"



text \<open>\<open>strings.Split(s, " ")\<close>: the pieces between single spaces, at least one piece.\<close>

fun Split_loop :: "string \<Rightarrow> string \<Rightarrow> string list" where
  "Split_loop [] w = [w]"
| "Split_loop (c # cs) w =
     (if c = CHR '' '' then w # Split_loop cs [] else Split_loop cs (w @ [c]))"

definition Split :: "string \<Rightarrow> string list" where
  "Split s = Split_loop s []"

text \<open>The method \<open>New\<close>, with \<open>strings.ToUpper\<close> as a parameter, and the function \<open>New\<close>.\<close>

definition Command_New ::
  "(string \<Rightarrow> string) \<Rightarrow> ('t, 'v) Command \<Rightarrow> string \<Rightarrow> ('t, 'v) Command" where
  "Command_New upper c inp =
     (let ws = Split (upper inp);
          c1 = c\<lparr>Verb := hd ws, Nouns := tl ws\<rparr>
      in if length ws > 1 then c1\<lparr>Target := ws ! 1\<rparr> else c1\<lparr>Target := []\<rparr>)"

definition New :: "(string \<Rightarrow> string) \<Rightarrow> 't \<Rightarrow> string \<Rightarrow> ('t, 'v) Command" where
  "New upper issuer inp =
     Command_New upper
       \<lparr>Issuer = issuer, Verb = [], Nouns = [], Target = [], Locks = [], locksModified = False,
        response = \<lparr>format = [], any = []\<rparr>,
        broadcast = \<lparr>format = [], any = [], omit = []\<rparr>\<rparr> inp"





text \<open>
  Modelled from the spec: \<open>IsAlso\<close> of package thing, which is not part of the sources
  at hand; the spec has presence in a list checked by identity.
\<close>

definition IsAlso :: "'t \<Rightarrow> 't \<Rightarrow> bool" where
  "IsAlso a b = (a = b)"



fun Command_CanLock_loop :: "'t list \<Rightarrow> 't \<Rightarrow> bool" where
  "Command_CanLock_loop [] t = False"
| "Command_CanLock_loop (l # ls) t = (if IsAlso t l then True else Command_CanLock_loop ls t)"

definition Command_CanLock :: "('t, 'v) Command \<Rightarrow> 't \<Rightarrow> bool" where
  "Command_CanLock c t = Command_CanLock_loop (Locks c) t"


text \<open>
  The insertion loop of \<open>Command.AddLock\<close>:
  \<^verbatim>\<open>for i := 0; i < l; i++ { if uid > c.Locks[i].UniqueId() { copy(...); c.Locks[i] = t; break } }\<close>
\<close>

function Command_AddLock_loop ::
  "('t \<Rightarrow> 'k::linorder) \<Rightarrow> 't \<Rightarrow> 'k \<Rightarrow> nat \<Rightarrow> nat \<Rightarrow> 't list \<Rightarrow> 't list" where
  "Command_AddLock_loop UniqueId t uid l i ls =
     (if i < l then
        (if uid > UniqueId (ls ! i) then (copy_within ls (i + 1) l i (l - 1))[i := t]
         else Command_AddLock_loop UniqueId t uid l (i + 1) ls)
      else ls)"
  by pat_completeness auto
termination
  by (relation "measure (\<lambda>(UniqueId, t, uid, l, i, ls). l - i)") auto

definition Command_AddLock ::
  "('t \<Rightarrow> 'k::linorder) \<Rightarrow> ('t, 'v) Command \<Rightarrow> 't option \<Rightarrow> ('t, 'v) Command" where
  "Command_AddLock UniqueId c t' =
     (case t' of
        None \<Rightarrow> c
      | Some t \<Rightarrow>
          if Command_CanLock c t then c
          else
            (let c1 = c\<lparr>locksModified := True\<rparr>;
                 c2 = c1\<lparr>Locks := Locks c1 @ [t]\<rparr>;
                 l = length (Locks c2)
             in if l > 1
                then c2\<lparr>Locks := Command_AddLock_loop UniqueId t (UniqueId t) l 0 (Locks c2)\<rparr>
                else c2))"

fun Command_AddLocks ::
  "('t \<Rightarrow> 'k::linorder) \<Rightarrow> ('t, 'v) Command \<Rightarrow> 't list \<Rightarrow> ('t, 'v) Command" where
  "Command_AddLocks UniqueId c [] = c"
| "Command_AddLocks UniqueId c (t # ts) =
     Command_AddLocks UniqueId (Command_AddLock UniqueId c (Some t)) ts"




definition command0 :: "(nat, unit) Command" where
  "command0 = New ToUpper 0 ''look''"



section \<open>Package attr: the Action attribute and its scheduled event\<close>

text \<open>
  The struct \<open>Action\<close>. The embedded \<open>Attribute\<close> holds the parent thing (nil until
  the attribute is added to a thing), durations and times are integers (nanoseconds),
  and \<open>Cancel\<close> is nil or a channel, named by a number.
\<close>

record 't Action =
  parent :: "'t option"
  after :: int
  jitter :: int
  due :: int
  Cancel :: "nat option"

text \<open>
  Modelled from the spec: the event scheduler of package event, which is not part of
  the sources at hand. A scheduled event is bound to an entity and a command, has a fire
  time and a cancellation channel; the scheduler owns the set of pending events;
  closing the channel of a pending event keeps it from firing; an event that fires
  leaves the pending set. The field \<open>owner\<close> records the attribute whose call
  queued the event; no operation reads it. \<open>fired\<close> and \<open>cancelled\<close> collect the events
  that left the pending set either way.
\<close>

record 't scheduled =
  chan :: nat
  owner :: nat
  entity :: "'t option"
  command :: string
  fire_time :: int

text \<open>
  The world: the Action attributes by address (\<open>alloc\<close> is the next free address),
  the scheduler and the channels closed so far.
\<close>

record 't world =
  actions :: "nat \<Rightarrow> 't Action"
  alloc :: nat
  pending :: "'t scheduled list"
  fired :: "'t scheduled list"
  cancelled :: "'t scheduled list"
  closed :: "nat list"
  nextChan :: nat

datatype fault = CloseOfClosedChannel | NilDereference | InvalidPointer

text \<open>
  Modelled from the spec: \<open>event.Queue\<close>. The fire time is now plus the base delay plus
  a random delay below the jitter, computed from a random number that is an input of the
  model; a new channel is made and the event becomes pending.
\<close>

definition Queue ::
  "'t world \<Rightarrow> nat \<Rightarrow> 't option \<Rightarrow> string \<Rightarrow> int \<Rightarrow> int \<Rightarrow> int \<Rightarrow> int \<Rightarrow>
   't world \<times> nat \<times> int" where
  "Queue w own p c aft jit now rnd =
     (let ch = nextChan w; d = now + aft + (if jit > 0 then rnd mod jit else 0)
      in (w\<lparr>pending := pending w @
               [\<lparr>chan = ch, owner = own, entity = p, command = c, fire_time = d\<rparr>],
            nextChan := ch + 1\<rparr>, ch, d))"

text \<open>
  Go's \<open>close\<close> on a channel: closing a closed channel panics. Modelled from the spec:
  the pending event waiting on the channel is dropped.
\<close>

definition close_chan :: "'t world \<Rightarrow> nat \<Rightarrow> fault + 't world" where
  "close_chan w ch =
     (if ch \<in> set (closed w) then Inl CloseOfClosedChannel
      else Inr (w\<lparr>closed := ch # closed w,
                  pending := filter (\<lambda>e. chan e \<noteq> ch) (pending w),
                  cancelled := cancelled w @ filter (\<lambda>e. chan e = ch) (pending w)\<rparr>))"

text \<open>Modelled from the spec: a pending event fires; it is delivered and no longer pending.\<close>

definition fire :: "'t world \<Rightarrow> nat \<Rightarrow> 't world" where
  "fire w ch =
     w\<lparr>pending := filter (\<lambda>e. chan e \<noteq> ch) (pending w),
       fired := fired w @ filter (\<lambda>e. chan e = ch) (pending w)\<rparr>"

text \<open>\<open>NewAction\<close> returns a pointer to a new struct.\<close>

definition NewAction :: "'t world \<Rightarrow> int \<Rightarrow> int \<Rightarrow> 't world \<times> nat" where
  "NewAction w aft jit =
     (w\<lparr>actions := (actions w)
           (alloc w := \<lparr>parent = None, after = aft, jitter = jit, due = 0, Cancel = None\<rparr>),
        alloc := alloc w + 1\<rparr>, alloc w)"

text \<open>\<open>Copy\<close>; a nil receiver gives a nil pointer.\<close>

definition Copy :: "'t world \<Rightarrow> nat option \<Rightarrow> 't world \<times> nat option" where
  "Copy w a' =
     (case a' of
        None \<Rightarrow> (w, None)
      | Some a \<Rightarrow>
          (let (w1, na) = NewAction w (after (actions w a)) (jitter (actions w a));
               w2 = w1\<lparr>actions := (actions w1)(na := (actions w1 na)\<lparr>due := due (actions w a)\<rparr>)\<rparr>
           in (w2, Some na)))"

text \<open>\<open>Abort\<close>.\<close>

definition Abort :: "'t world \<Rightarrow> nat option \<Rightarrow> fault + 't world" where
  "Abort w a' =
     (case a' of
        None \<Rightarrow> Inr w
      | Some a \<Rightarrow>
          (case Cancel (actions w a) of
             None \<Rightarrow> Inr w
           | Some ch \<Rightarrow>
               (case close_chan w ch of
                  Inl f \<Rightarrow> Inl f
                | Inr w1 \<Rightarrow> Inr (w1\<lparr>actions := (actions w1)(a := (actions w1 a)\<lparr>Cancel := None\<rparr>)\<rparr>))))"

text \<open>
  \<open>Action\<close>. \<open>FindOnAction\<close> of package attr is a parameter: for the parent it gives
  \<open>None\<close> when no OnAction attribute is found and the action text otherwise. The
  current time and the random number are inputs.
\<close>

definition Action_Action ::
  "('t option \<Rightarrow> string option) \<Rightarrow> 't world \<Rightarrow> nat option \<Rightarrow> int \<Rightarrow> int \<Rightarrow> fault + 't world" where
  "Action_Action FindOnAction w a' now rnd =
     (case a' of
        None \<Rightarrow> Inr w
      | Some a \<Rightarrow>
          (case Abort w (Some a) of
             Inl f \<Rightarrow> Inl f
           | Inr w1 \<Rightarrow>
               (let p = parent (actions w1 a)
                in case FindOnAction p of
                     None \<Rightarrow> Inr w1
                   | Some txt \<Rightarrow>
                       (let (w2, ch, d) =
                              Queue w1 a p (''$ACTION '' @ txt) (after (actions w1 a))
                                (jitter (actions w1 a)) now rnd
                        in Inr (w2\<lparr>actions := (actions w2)
                                   (a := (actions w2 a)\<lparr>Cancel := Some ch, due := d\<rparr>)\<rparr>)))))"

text \<open>\<open>Pending\<close>; it reads the field of its receiver without a nil check.\<close>

definition Pending :: "'t world \<Rightarrow> nat option \<Rightarrow> fault + bool" where
  "Pending w a' =
     (case a' of None \<Rightarrow> Inl NilDereference | Some a \<Rightarrow> Inr (Cancel (actions w a) \<noteq> None))"

text \<open>
  \<open>Free\<close>. Modelled from the spec: \<open>Attribute.Free\<close> of the embedded struct, which lets
  go of the parent.
\<close>

definition Free :: "'t world \<Rightarrow> nat option \<Rightarrow> fault + 't world" where
  "Free w a' =
     (case a' of
        None \<Rightarrow> Inr w
      | Some a \<Rightarrow>
          (case Abort w (Some a) of
             Inl f \<Rightarrow> Inl f
           | Inr w1 \<Rightarrow> Inr (w1\<lparr>actions := (actions w1)(a := (actions w1 a)\<lparr>parent := None\<rparr>)\<rparr>)))"

text \<open>
  What can happen to the attributes and the scheduler, one step at a time. A pointer
  in a step is nil or the address of an attribute made earlier; a step with another
  address is not a step of a Go program and is refused.
\<close>

datatype 't op =
  OpNewAction int int
| OpSetParent nat "'t option"
| OpCopy "nat option"
| OpAction "nat option" int int
| OpAbort "nat option"
| OpFree "nat option"
| OpFire nat

definition valid :: "'t world \<Rightarrow> nat option \<Rightarrow> bool" where
  "valid w a' = (case a' of None \<Rightarrow> True | Some a \<Rightarrow> a < alloc w)"

fun exec ::
  "('t option \<Rightarrow> string option) \<Rightarrow> 't world \<Rightarrow> 't op \<Rightarrow> fault + 't world" where
  "exec F w (OpNewAction aft jit) = Inr (fst (NewAction w aft jit))"
| "exec F w (OpSetParent a p) =
     (if valid w (Some a)
      then Inr (w\<lparr>actions := (actions w)(a := (actions w a)\<lparr>parent := p\<rparr>)\<rparr>)
      else Inl InvalidPointer)"
| "exec F w (OpCopy a) = (if valid w a then Inr (fst (Copy w a)) else Inl InvalidPointer)"
| "exec F w (OpAction a now rnd) =
     (if valid w a then Action_Action F w a now rnd else Inl InvalidPointer)"
| "exec F w (OpAbort a) = (if valid w a then Abort w a else Inl InvalidPointer)"
| "exec F w (OpFree a) = (if valid w a then Free w a else Inl InvalidPointer)"
| "exec F w (OpFire ch) = Inr (fire w ch)"

fun run ::
  "('t option \<Rightarrow> string option) \<Rightarrow> 't world \<Rightarrow> 't op list \<Rightarrow> fault + 't world" where
  "run F w [] = Inr w"
| "run F w (x # xs) = (case exec F w x of Inl f \<Rightarrow> Inl f | Inr w1 \<Rightarrow> run F w1 xs)"

text \<open>The world before anything is made, and a thing 7 whose OnAction text is "The frog croaks.".\<close>

definition world0 :: "'t world" where
  "world0 =
     \<lparr>actions = (\<lambda>a. \<lparr>parent = None, after = 0, jitter = 0, due = 0, Cancel = None\<rparr>),
      alloc = 0, pending = [], fired = [], cancelled = [], closed = [], nextChan = 0\<rparr>"

definition frog :: "nat option \<Rightarrow> string option" where
  "frog p = (if p = Some 7 then Some ''The frog croaks.'' else None)"

text \<open>The pending events queued by the attribute at an address.\<close>

definition pending_of :: "'t world \<Rightarrow> nat \<Rightarrow> 't scheduled list" where
  "pending_of w a = filter (\<lambda>e. owner e = a) (pending w)"

text \<open>
  What holds of every world the steps can reach: no two events that were ever queued
  share a channel, every channel in use is older than the next one to be made, a
  pending event belongs to an existing attribute that holds its channel, the channel an
  attribute holds is open, and no two attributes hold the same channel.
\<close>

definition inv :: "'t world \<Rightarrow> bool" where
  "inv w \<longleftrightarrow>
     distinct (map chan (pending w)) \<and> distinct (map chan (fired w)) \<and>
     distinct (map chan (cancelled w)) \<and>
     chan ` set (pending w) \<inter> chan ` set (fired w) = {} \<and>
     chan ` set (pending w) \<inter> chan ` set (cancelled w) = {} \<and>
     chan ` set (fired w) \<inter> chan ` set (cancelled w) = {} \<and>
     (\<forall>e \<in> set (pending w) \<union> set (fired w) \<union> set (cancelled w). chan e < nextChan w) \<and>
     (\<forall>ch \<in> set (closed w). ch < nextChan w) \<and>
     (\<forall>e \<in> set (pending w).
        owner e < alloc w \<and> Cancel (actions w (owner e)) = Some (chan e)) \<and>
     (\<forall>a ch. Cancel (actions w a) = Some ch \<longrightarrow> ch < nextChan w \<and> ch \<notin> set (closed w)) \<and>
     (\<forall>a b ch. Cancel (actions w a) = Some ch \<longrightarrow> Cancel (actions w b) = Some ch \<longrightarrow> a = b)"

section \<open>Package core: Hit, createCorpse and the roles of a Combat round\<close>

text \<open>
  A \<open>*Thing\<close> is an address into the store of things. The maps of a Thing that are
  read with the zero value for a missing key (\<open>As\<close>, \<open>Int\<close>, \<open>Any\<close>, \<open>Event\<close>) are
  total functions, \<open>Ref\<close> gives nil as \<open>None\<close>, and \<open>Who\<close> and \<open>In\<close>, whose size
  matters, are association lists. \<open>Is\<close> is the set of flags that are set. The field
  \<open>Int\<close> is spelled \<open>Int'\<close>.
\<close>

datatype asKey = UID | Name | UName | TheName | UTheName | Description | VetoCombat
  | OnCleanup | PromptStyle
datatype intKey = HealthCurrent | HealthMaximum | CleanupAfter | CombatAfter
datatype refKey = Where | Opponent
datatype anyKey = Alias | Qualifier | Opponents
datatype eventKey = Health | Cleanup | Combat | Act
datatype isKey = Player | Location | NPC

record Thing =
  As :: "asKey \<Rightarrow> string"
  Int' :: "intKey \<Rightarrow> int"
  Ref :: "refKey \<Rightarrow> nat option"
  Any :: "anyKey \<Rightarrow> string list"
  Who :: "(string \<times> nat) list"
  In :: "(string \<times> nat) list"
  Is :: "isKey list"
  Event :: "eventKey \<Rightarrow> bool"

text \<open>Go maps as association lists: reading, writing, \<open>delete\<close> and \<open>len\<close>.\<close>

fun get :: "(string \<times> nat) list \<Rightarrow> string \<Rightarrow> nat option" where
  "get [] k = None"
| "get ((k', v) # m) k = (if k' = k then Some v else get m k)"

fun put :: "(string \<times> nat) list \<Rightarrow> string \<Rightarrow> nat \<Rightarrow> (string \<times> nat) list" where
  "put [] k v = [(k, v)]"
| "put ((k', v') # m) k v = (if k' = k then (k, v) # m else (k', v') # put m k v)"

fun del :: "(string \<times> nat) list \<Rightarrow> string \<Rightarrow> (string \<times> nat) list" where
  "del [] k = []"
| "del ((k', v') # m) k = (if k' = k then del m k else (k', v') # del m k)"

definition len :: "(string \<times> nat) list \<Rightarrow> nat" where
  "len m = length (remdups (map fst m))"

text \<open>
  Text fragments of a message: strings and the colour codes of package text. The calls
  into code that is not part of the sources at hand are recorded in the order they are
  made; what they do to the world is not modelled.
\<close>

datatype fragment = Txt string | Info | Bad | Good | Cyan

datatype effect =
  Msg nat "fragment list"
| MsgAppend nat "fragment list"
| Schedule nat eventKey
| Junk nat
| SubparseFor nat string
| Prompt nat

record core =
  things :: "nat \<Rightarrow> Thing"
  next_thing :: nat
  effects :: "effect list"

datatype panic = NegativeRepeatCount | IndexOutOfRange | NilPointer | InvalidArgument

text \<open>Go's integer division truncates towards zero.\<close>

definition quot :: "int \<Rightarrow> int \<Rightarrow> int" where
  "quot a b = sgn a * sgn b * (\<bar>a\<bar> div \<bar>b\<bar>)"

text \<open>
  The helper \<open>center\<close> of \<open>Hit\<close>. The padding is the symbol U+2420, three bytes in
  UTF-8; \<open>strings.Repeat\<close> panics on a negative count.
\<close>

definition pad_symbol :: string where
  "pad_symbol = [CHR 0xE2, CHR 0x90, CHR 0xA0]"

definition center :: "string \<Rightarrow> panic + string" where
  "center s =
     (let pad = quot (80 - int (length s)) 2
      in if pad < 0 then Inl NegativeRepeatCount
         else Inr (concat (map (\<lambda>c. if c = CHR '' '' then pad_symbol else [c])
                     (concat (replicate (nat pad) pad_symbol) @ s))))"

text \<open>
  Modelled from the spec: \<open>NewThing\<close>, which is not part of the sources at hand. By the
  comment in \<open>createCorpse\<close> it gives the new thing a new UID and adds it to the
  aliases; the new UID is an input of the model.
\<close>

definition NewThing :: "core \<Rightarrow> string \<Rightarrow> core \<times> nat" where
  "NewThing w uid =
     (w\<lparr>things := (things w)
           (next_thing w :=
              \<lparr>As = (\<lambda>k. [])(UID := uid), Int' = (\<lambda>k. 0), Ref = (\<lambda>k. None),
               Any = (\<lambda>k. [])(Alias := [uid]), Who = [], In = [], Is = [],
               Event = (\<lambda>k. False)\<rparr>),
        next_thing := next_thing w + 1\<rparr>, next_thing w)"

definition upd :: "core \<Rightarrow> nat \<Rightarrow> (Thing \<Rightarrow> Thing) \<Rightarrow> core" where
  "upd w a f = w\<lparr>things := (things w)(a := f (things w a))\<rparr>"

definition emit :: "core \<Rightarrow> effect \<Rightarrow> core" where
  "emit w e = w\<lparr>effects := effects w @ [e]\<rparr>"

text \<open>\<open>createCorpse\<close>. Reaching for the \<open>In\<close> map of a nil \<open>Where\<close> panics.\<close>

definition createCorpse :: "core \<Rightarrow> string \<Rightarrow> nat \<Rightarrow> panic + core \<times> nat" where
  "createCorpse w uid t =
     (let (w1, c) = NewThing w uid;
          T = things w1 t;
          w2 = upd w1 c (\<lambda>C. C\<lparr>As := (As C)
                  (Name := ''a corpse of '' @ As T Name,
                   UName := ''A corpse of '' @ As T Name,
                   TheName := ''the corpse of '' @ As T Name,
                   UTheName := ''The corpse of '' @ As T Name,
                   Description := As T Description)\<rparr>);
          w3 = upd w2 c (\<lambda>C. C\<lparr>Any := (Any C)
                  (Alias := Any C Alias @ Any T Alias,
                   Qualifier := Any C Qualifier @ Any T Qualifier)\<rparr>);
          w4 = upd w3 c (\<lambda>C. C\<lparr>Ref := (Ref C)(Where := Ref T Where)\<rparr>)
      in case Ref (things w4 c) Where of
           None \<Rightarrow> Inl NilPointer
         | Some l \<Rightarrow>
             (let w5 = upd w4 l (\<lambda>L. L\<lparr>In := put (In L) (As (things w4 c) UID) t\<rparr>);
                  w6 = upd w5 c (\<lambda>C. C\<lparr>Int' := (Int' C)(CleanupAfter := 60 * 1000000000)\<rparr>);
                  w7 = upd w6 c (\<lambda>C. C\<lparr>As := (As C)
                         (OnCleanup := As C UTheName @ '' turns to dust.'')\<rparr>);
                  w8 = upd w7 c (\<lambda>C. C\<lparr>Any := (Any C)
                         (Alias := map (\<lambda>alias. if alias = As (things w7 t) UID
                                                   then ''CORPSE'' else alias)
                                     (Any C Alias))\<rparr>)
              in Inr (w8, c)))"

text \<open>
  What \<open>Hit\<close> takes from its surroundings: the configured crowd size, the start
  locations of the world, the result of \<open>Match\<close> for the words and the location, the
  locations next to the actor's (\<open>radius\<close>), the UID the next new thing gets, and the
  two numbers drawn from the random source, from which \<open>rand.Int63n(3)\<close> and
  \<open>rand.Intn(len(WorldStart))\<close> are computed.
\<close>

record surroundings =
  crowdSize :: nat
  WorldStart :: "nat list"
  matched :: "string list"
  nearby :: "nat list"
  new_uid :: string
  draw1 :: nat
  draw2 :: nat

definition FormatInt :: "int \<Rightarrow> string" where
  "FormatInt d = (if d = 2 then ''2'' else if d = 3 then ''3'' else ''4'')"

definition newline :: string where
  "newline = [CHR 0x0A]"

text \<open>The message to the one killed; the four calls of \<open>center\<close> may panic.\<close>

definition rest_in_peace :: "Thing \<Rightarrow> Thing \<Rightarrow> string \<Rightarrow> panic + fragment list" where
  "rest_in_peace A W damageTxt =
     (case center '' :==[ Rest In Peace ]==:'' of Inl p \<Rightarrow> Inl p | Inr c1 \<Rightarrow>
      case center (As W Name) of Inl p \<Rightarrow> Inl p | Inr c2 \<Rightarrow>
      case center ''Slain By'' of Inl p \<Rightarrow> Inl p | Inr c3 \<Rightarrow>
      case center (As A Name) of Inl p \<Rightarrow> Inl p | Inr c4 \<Rightarrow>
        Inr [Bad, Txt (As A UTheName), Txt '' kills you ('', Txt damageTxt, Txt '').'', Cyan,
             Txt newline, Txt newline, Txt c1, Txt newline, Txt newline, Txt c2,
             Txt newline, Txt c3, Txt newline, Txt c4, Good,
             Txt (newline @ newline @
               ''You must know people in high places, you are to be given another chance...'' @
               newline)])"

text \<open>The loop over the neighbouring locations at the end of the default case.\<close>

fun hear_fighting :: "nat \<Rightarrow> core \<Rightarrow> nat list \<Rightarrow> core" where
  "hear_fighting cs w [] = w"
| "hear_fighting cs w (l # ls) =
     (let n = len (Who (things w l))
      in hear_fighting cs
           (if 0 < n \<and> n < cs then emit w (Msg l [Info, Txt ''You hear fighting nearby.'']) else w)
           ls)"

text \<open>The case of \<open>Hit\<close> that kills.\<close>

definition Hit_kill ::
  "surroundings \<Rightarrow> core \<Rightarrow> nat \<Rightarrow> nat \<Rightarrow> nat \<Rightarrow> string \<Rightarrow> panic + core" where
  "Hit_kill sur w actr loc what damageTxt =
     (let w1 = emit w (Msg actr [Good, Txt ''You kill '', Txt (As (things w what) TheName),
                                  Txt '' ('', Txt damageTxt, Txt '').''])
      in case rest_in_peace (things w1 actr) (things w1 what) damageTxt of
           Inl p \<Rightarrow> Inl p
         | Inr rip \<Rightarrow>
             (let w2 = emit w1 (Msg what rip);
                  w3 = emit w2 (Msg loc [Info, Txt ''You see '', Txt (As (things w2 actr) TheName),
                                        Txt '' kill '', Txt (As (things w2 what) Name), Txt ''.''])
              in case createCorpse w3 (new_uid sur) what of
                   Inl p \<Rightarrow> Inl p
                 | Inr (w4, c) \<Rightarrow>
                     (let w5 = upd w4 loc (\<lambda>L. L\<lparr>In := put (In L) (As (things w4 c) UID) c\<rparr>);
                          w6 = emit w5 (Schedule c Cleanup)
                      in if Player \<notin> set (Is (things w6 what)) then
                           (let w7 = upd w6 what (\<lambda>W. W\<lparr>Int' := (Int' W)
                                       (HealthCurrent := Int' W HealthMaximum)\<rparr>);
                                w8 = emit w7 (Junk what)
                            in Inr (emit w8 (Prompt what)))
                         else
                           (let w7 = upd w6 what (\<lambda>W. W\<lparr>Int' := (Int' W)(HealthCurrent := 1)\<rparr>);
                                w8 = upd w7 loc (\<lambda>L. L\<lparr>Who := del (Who L) (As (things w7 what) UID)\<rparr>)
                            in if length (WorldStart sur) = 0 then Inl InvalidArgument
                               else
                                 (let start = WorldStart sur ! (draw2 sur mod length (WorldStart sur));
                                      w9 = upd w8 what (\<lambda>W. W\<lparr>Ref := (Ref W)(Where := Some start)\<rparr>);
                                      w10 = upd w9 start
                                              (\<lambda>S. S\<lparr>Who := put (Who S) (As (things w9 what) UID) what\<rparr>);
                                      w11 = emit w10 (SubparseFor what ''$POOF'')
                                  in Inr (emit w11 (Prompt what)))))))"

text \<open>The default case of \<open>Hit\<close>: a hit that does not kill.\<close>

definition Hit_wound ::
  "surroundings \<Rightarrow> core \<Rightarrow> nat \<Rightarrow> nat \<Rightarrow> nat \<Rightarrow> int \<Rightarrow> string \<Rightarrow> core" where
  "Hit_wound sur w actr loc what damage damageTxt =
     (let w1 = upd w what (\<lambda>W. W\<lparr>Int' := (Int' W)(HealthCurrent := Int' W HealthCurrent - damage)\<rparr>);
          W = things w1 what;
          w2 = (if \<not> Event W Health \<and> Int' W HealthCurrent < Int' W HealthMaximum
                then emit w1 (Schedule what Health) else w1);
          w3 = emit w2 (Prompt what);
          w4 = emit w3 (Msg actr [Good, Txt ''You hit '', Txt (As W TheName), Txt '' ('',
                                   Txt damageTxt, Txt '').'']);
          w5 = emit w4 (Msg what [Bad, Txt (As (things w4 actr) UTheName), Txt '' hits you ('',
                                  Txt damageTxt, Txt '').'']);
          w6 = emit w5 (Msg loc [Info, Txt ''You see '', Txt (As (things w5 actr) Name),
                                 Txt '' hit '', Txt (As W Name), Txt ''.'']);
          w7 = (if Int' W HealthCurrent < 4 then
                  emit (emit (emit w6
                    (MsgAppend actr [Good, Txt '' '', Txt (As W UTheName), Txt '' looks nearly dead.'']))
                    (MsgAppend what [Bad, Txt '' You are almost dead.'']))
                    (MsgAppend loc [Info, Txt '' '', Txt (As W UTheName), Txt '' is almost dead.''])
                else w6)
      in hear_fighting (crowdSize sur) w7 (nearby sur))"

text \<open>\<open>Hit\<close>, for the actor (\<open>actr\<close>) and the words of the state.\<close>

definition Hit :: "surroundings \<Rightarrow> core \<Rightarrow> nat \<Rightarrow> string list \<Rightarrow> panic + core" where
  "Hit sur w actr word =
     (if length word = 0 then Inr (emit w (Msg actr [Info, Txt ''You go to hit... someone?'']))
      else
        (let damage = 2 + int (draw1 sur mod 3);
             damageTxt = FormatInt damage
         in case Ref (things w actr) Where of
              None \<Rightarrow> Inl NilPointer
            | Some loc \<Rightarrow>
                (let notify = len (Who (things w loc)) < crowdSize sur
                 in case matched sur of
                      [] \<Rightarrow> Inl IndexOutOfRange
                    | uid # _ \<Rightarrow>
                        (let what' = (case get (Who (things w loc)) uid of
                                        None \<Rightarrow> get (In (things w loc)) uid
                                      | Some x \<Rightarrow> Some x)
                         in case what' of
                              None \<Rightarrow>
                                Inr (emit w (Msg actr [Bad, Txt ''You see no '', Txt [CHR 0x27],
                                       Txt uid, Txt [CHR 0x27], Txt '' to hit.'']))
                            | Some what \<Rightarrow>
                                if actr = what then
                                  Inr (emit (emit w
                                    (Msg actr [Good, Txt ''You give yourself a slap. Awake now?'']))
                                    (Msg loc [Info, Txt (As (things w actr) UName),
                                              Txt '' slaps themself.'']))
                                else if As (things w loc) VetoCombat \<noteq> [] then
                                  Inr (emit w (Msg actr [Bad, Txt (As (things w loc) VetoCombat)]))
                                else if \<not> notify then
                                  Inr (emit w (Msg actr [Bad, Txt ''It'' , Txt [CHR 0x27],
                                         Txt ''s too crowded to start a fight.'']))
                                else if Int' (things w what) HealthMaximum = 0 then
                                  Inr (emit w (Msg actr [Bad, Txt ''You cannot kill '',
                                         Txt (As (things w what) Name), Txt ''.'']))
                                else if Int' (things w what) HealthCurrent \<le> damage then
                                  Hit_kill sur w actr loc what damageTxt
                                else
                                  Inr (Hit_wound sur w actr loc what damage damageTxt)))))"

text \<open>
  The roles of a \<open>Combat\<close> round, for the number \<open>r\<close> that \<open>rand.Int63n(100+1)\<close>
  returns, one of 0 to 100:
  \<^verbatim>\<open>attacker, defender := s.actr, what; if rand.Int63n(100+1) < 50 { attacker, defender = defender, attacker }\<close>
\<close>

definition Combat_roles :: "nat \<Rightarrow> nat \<Rightarrow> int \<Rightarrow> nat \<times> nat" where
  "Combat_roles actr what r =
     (let (attacker, defender) = (actr, what)
      in if r < 50 then (defender, attacker) else (attacker, defender))"

text \<open>The values \<open>rand.Int63n(100+1)\<close> can return; the random source gives each equally often.\<close>

definition Int63n_101 :: "int list" where
  "Int63n_101 = map int [0..<101]"

text \<open>
  What \<open>createCorpse\<close> makes of a thing: a corpse with the given UID, in the given
  location, that carries the names, the description, the aliases (the UID of the dead
  replaced by CORPSE) and the qualifiers of the dead, and is to be cleaned up after 60
  seconds.
\<close>

definition is_corpse_of :: "Thing \<Rightarrow> Thing \<Rightarrow> string \<Rightarrow> nat \<Rightarrow> bool" where
  "is_corpse_of C T uid l \<longleftrightarrow>
     As C UID = uid \<and>
     As C Name = ''a corpse of '' @ As T Name \<and>
     As C UName = ''A corpse of '' @ As T Name \<and>
     As C TheName = ''the corpse of '' @ As T Name \<and>
     As C UTheName = ''The corpse of '' @ As T Name \<and>
     As C Description = As T Description \<and>
     As C OnCleanup = ''The corpse of '' @ As T Name @ '' turns to dust.'' \<and>
     Any C Alias =
       map (\<lambda>alias. if alias = As T UID then ''CORPSE'' else alias) (uid # Any T Alias) \<and>
     Any C Qualifier = Any T Qualifier \<and>
     Ref C Where = Some l \<and>
     Int' C CleanupAfter = 60000000000"

section \<open>Properties of the lock list of package cmd\<close>

lemma CanLock_loop_iff: "CanLock_loop ls i \<longleftrightarrow> i \<in> set ls"
  by (induction ls) auto

lemma copy_within_shift:
  "copy_within (as @ b # bs @ [i]) (length as + 1) (length as + length bs + 2)
     (length as) (length as + length bs + 1) = as @ b # b # bs"
  by (simp add: copy_within_def)

lemma AddLock_loop_split:
  "LockID i = u \<Longrightarrow>
   AddLock_loop LockID i u (length as + length bs + 1) (length as) (as @ bs @ [i]) =
     as @ takeWhile (\<lambda>h. LockID h \<le> u) bs @ i # dropWhile (\<lambda>h. LockID h \<le> u) bs"
proof (induction bs arbitrary: as)
  case Nil
  then show ?case
    by (subst AddLock_loop.simps, subst AddLock_loop.simps) (simp add: nth_append)
next
  case (Cons b bs)
  show ?case
  proof (cases "LockID b > u")
    case True
    have "copy_within (as @ (b # bs) @ [i]) (length as + 1) (length as + length (b # bs) + 1)
            (length as) (length as + length (b # bs) + 1 - 1) = as @ b # b # bs"
      using copy_within_shift [of as b bs i] by simp
    then have "(copy_within (as @ (b # bs) @ [i]) (length as + 1)
                 (length as + length (b # bs) + 1) (length as)
                 (length as + length (b # bs) + 1 - 1))[length as := i] = as @ i # b # bs"
      by (simp add: list_update_append)
    moreover from True have "\<not> LockID b \<le> u"
      by simp
    ultimately show ?thesis
      using True by (subst AddLock_loop.simps) (simp add: nth_append)
  next
    case False
    have "AddLock_loop LockID i u (length (as @ [b]) + length bs + 1) (length (as @ [b]))
            ((as @ [b]) @ bs @ [i]) =
          (as @ [b]) @ takeWhile (\<lambda>h. LockID h \<le> u) bs @ i # dropWhile (\<lambda>h. LockID h \<le> u) bs"
      using Cons.IH [of "as @ [b]"] Cons.prems by blast
    moreover from False have "LockID b \<le> u"
      by simp
    ultimately show ?thesis
      using False by (subst AddLock_loop.simps) (simp add: nth_append)
  qed
qed

lemma locks_AddLock:
  "locks (AddLock LockID s (Some i)) =
     (if i \<in> set (locks s) then locks s
      else takeWhile (\<lambda>h. LockID h \<le> LockID i) (locks s) @
           i # dropWhile (\<lambda>h. LockID h \<le> LockID i) (locks s))"
proof (cases "locks s = []")
  case True
  then show ?thesis
    by (simp add: AddLock_def CanLock_def)
next
  case False
  then have "length (locks s) \<noteq> 0"
    by simp
  moreover have "AddLock_loop LockID i (LockID i) (length (locks s) + 1) 0 (locks s @ [i]) =
      takeWhile (\<lambda>h. LockID h \<le> LockID i) (locks s) @
      i # dropWhile (\<lambda>h. LockID h \<le> LockID i) (locks s)"
    using AddLock_loop_split [of LockID i "LockID i" "[]" "locks s"] by simp
  ultimately show ?thesis
    by (simp add: AddLock_def CanLock_def CanLock_loop_iff Let_def)
qed

lemma set_insert_split:
  "set (takeWhile P xs @ i # dropWhile P xs) = insert i (set xs)"
proof -
  have "set xs = set (takeWhile P xs) \<union> set (dropWhile P xs)"
    by (metis set_append takeWhile_dropWhile_id)
  then show ?thesis
    by auto
qed

lemma distinct_insert_split:
  "distinct xs \<Longrightarrow> i \<notin> set xs \<Longrightarrow> distinct (takeWhile P xs @ i # dropWhile P xs)"
proof -
  assume d: "distinct xs" and n: "i \<notin> set xs"
  have "distinct (takeWhile P xs) \<and> distinct (dropWhile P xs) \<and>
        set (takeWhile P xs) \<inter> set (dropWhile P xs) = {}"
    using d by (metis distinct_append takeWhile_dropWhile_id)
  moreover have "set xs = set (takeWhile P xs) \<union> set (dropWhile P xs)"
    by (metis set_append takeWhile_dropWhile_id)
  ultimately show ?thesis
    using n by auto
qed

lemma sorted_insert_split:
  fixes f :: "'a \<Rightarrow> 'k::linorder"
  shows "sorted (map f xs) \<Longrightarrow>
    sorted (map f (takeWhile (\<lambda>h. f h \<le> f i) xs @ i # dropWhile (\<lambda>h. f h \<le> f i) xs))"
proof (induction xs)
  case Nil
  then show ?case by simp
next
  case (Cons x xs)
  show ?case
  proof (cases "f x \<le> f i")
    case True
    let ?r = "takeWhile (\<lambda>h. f h \<le> f i) xs @ i # dropWhile (\<lambda>h. f h \<le> f i) xs"
    have "\<forall>k \<in> set (map f ?r). f x \<le> k"
      using Cons.prems True by (auto dest: set_takeWhileD set_dropWhileD)
    moreover have "sorted (map f ?r)"
      using Cons.IH Cons.prems by simp
    moreover have "takeWhile (\<lambda>h. f h \<le> f i) (x # xs) @
        i # dropWhile (\<lambda>h. f h \<le> f i) (x # xs) = x # ?r"
      using True by simp
    ultimately show ?thesis
      by (simp only: list.map sorted_simps)
  next
    case False
    with Cons.prems show ?thesis
      by auto
  qed
qed

lemma AddLock_sorted:
  "sorted (map LockID (locks s)) \<Longrightarrow> sorted (map LockID (locks (AddLock LockID s (Some i))))"
  using sorted_insert_split [of LockID "locks s" i] by (cases "i \<in> set (locks s)") (simp_all only: locks_AddLock if_True if_False)

lemma AddLock_distinct:
  "distinct (locks s) \<Longrightarrow> distinct (locks (AddLock LockID s (Some i)))"
  by (simp add: locks_AddLock distinct_insert_split del: distinct_append)

lemma AddLock_set:
  "set (locks (AddLock LockID s (Some i))) = insert i (set (locks s))"
  by (simp only: locks_AddLock set_insert_split split: if_split) auto

lemma AddLocks_sorted:
  "sorted (map LockID (locks s)) \<Longrightarrow> sorted (map LockID (locks (AddLocks LockID s hs)))"
  by (induction hs arbitrary: s) (simp_all add: AddLock_sorted)

lemma AddLocks_distinct:
  "distinct (locks s) \<Longrightarrow> distinct (locks (AddLocks LockID s hs))"
  by (induction hs arbitrary: s) (simp_all add: AddLock_distinct)

lemma AddLocks_set:
  "set (locks (AddLocks LockID s hs)) = set (locks s) \<union> set hs"
  by (induction hs arbitrary: s) (simp_all add: AddLock_set)

lemma sorted_distinct_key_unique:
  fixes f :: "'a \<Rightarrow> 'k::linorder"
  assumes "inj_on f (set xs)" "set ys = set xs" "distinct xs" "distinct ys"
    "sorted (map f xs)" "sorted (map f ys)"
  shows "ys = xs"
proof -
  have dx: "distinct (map f xs)"
    using assms(1,3) by (simp add: distinct_map)
  have dy: "distinct (map f ys)"
    using assms(1,2,4) by (simp add: distinct_map)
  have st: "set (map f ys) = set (map f xs)"
    using assms(2) by simp
  have "map f ys = map f xs"
    using assms(6) dy assms(5) dx st by (rule sorted_distinct_set_unique)
  moreover have "inj_on f (set ys \<union> set xs)"
    using assms(1,2) by simp
  ultimately show ?thesis
    by (simp only: inj_on_map_eq_map)
qed

text \<open>
  Claim C1. Starting from an empty lock list, every sequence of \<open>AddLock\<close> calls with
  non-nil handles leaves \<open>locks\<close> sorted ascending by \<open>LockID\<close>, without a handle
  occurring twice, and holding exactly the handles that were added. When the handles
  have pairwise distinct lock IDs, any other call sequence over the same set of handles
  (a permutation, with or without repeated calls) ends in the same list.
\<close>

theorem AddLock_sorted_distinct_permutation:
  assumes "locks s = []" and "inj_on LockID (set hs)"
  shows "sorted (map LockID (locks (AddLocks LockID s hs))) \<and>
         distinct (locks (AddLocks LockID s hs)) \<and>
         set (locks (AddLocks LockID s hs)) = set hs \<and>
         (\<forall>hs'. set hs' = set hs \<longrightarrow>
            locks (AddLocks LockID s hs') = locks (AddLocks LockID s hs))"
proof -
  have srt: "sorted (map LockID (locks (AddLocks LockID s xs)))" for xs
    using assms(1) by (intro AddLocks_sorted) simp
  have dst: "distinct (locks (AddLocks LockID s xs))" for xs
    using assms(1) by (intro AddLocks_distinct) simp
  have st: "set (locks (AddLocks LockID s xs)) = set xs" for xs
    using assms(1) by (simp add: AddLocks_set)
  have "locks (AddLocks LockID s hs') = locks (AddLocks LockID s hs)"
    if "set hs' = set hs" for hs'
  proof (rule sorted_distinct_key_unique [where f = LockID])
    show "inj_on LockID (set (locks (AddLocks LockID s hs)))"
      using assms(2) by (simp only: st)
    show "set (locks (AddLocks LockID s hs')) = set (locks (AddLocks LockID s hs))"
      using that by (simp only: st)
  qed (rule srt dst)+
  with srt dst st show ?thesis
    by blast
qed

theorem AddLock_sorted_distinct_permutation_witness:
  "locks state0 = [] \<and> inj_on id (set [3, 1, 2 :: nat]) \<and>
   locks (AddLocks id state0 [3, 1, 2]) = [1, 2, 3] \<and>
   sorted (map id (locks (AddLocks id state0 [3, 1, 2]))) \<and>
   distinct (locks (AddLocks id state0 [3, 1, 2])) \<and>
   locks (AddLocks id state0 [2, 3, 1, 2]) = locks (AddLocks id state0 [3, 1, 2])"
proof -
  have l: "locks state0 = []"
    by (simp add: state0_def)
  have i: "inj_on id (set [3, 1, 2 :: nat])"
    by simp
  have e: "locks (AddLocks id state0 [3, 1, 2]) = [1, 2, 3]"
    by code_simp
  have p: "set [2, 3, 1, 2 :: nat] = set [3, 1, 2]"
    by (simp add: insert_commute)
  note t = AddLock_sorted_distinct_permutation [OF l i]
  from t have a: "sorted (map id (locks (AddLocks id state0 [3, 1, 2])))"
    by (rule conjunct1)
  from t have b: "distinct (locks (AddLocks id state0 [3, 1, 2]))"
    by (elim conjE)
  from t have "\<forall>hs'. set hs' = set [3, 1, 2] \<longrightarrow>
      locks (AddLocks id state0 hs') = locks (AddLocks id state0 [3, 1, 2])"
    by (elim conjE)
  then have c: "locks (AddLocks id state0 [2, 3, 1, 2]) = locks (AddLocks id state0 [3, 1, 2])"
    using p by (elim allE impE)
  from l i e a b c show ?thesis
    by (intro conjI)
qed

section \<open>Properties of NewState, sync and parse\<close>

lemma sync_loop_eq: "sync_loop ls log defers = (log @ map Lock ls, rev ls @ defers)"
  by (induction ls arbitrary: log defers) simp_all

lemma run_deferred_eq: "run_deferred defers log = log @ map Unlock defers"
  by (induction defers arbitrary: log) simp_all

lemma sync_eq:
  "sync d s = (d s, map Lock (locks s) @ [Call] @ map Unlock (rev (locks s)))"
  by (simp add: sync_def sync_loop_eq run_deferred_eq)

lemma held_append: "held (xs @ ys) h = held xs h + held ys h"
  by (induction xs h rule: held.induct) simp_all

lemma held_Lock: "held (map Lock ls) h = int (count_list ls h)"
  by (induction ls) simp_all

lemma held_Unlock: "held (map Unlock ls) h = - int (count_list ls h)"
  by (induction ls) simp_all

lemma count_list_rev: "count_list (rev ls) h = count_list ls h"
  by (induction ls) simp_all

lemma AddLock_fields:
  "cmd (AddLock LockID s i) = cmd s \<and> words (AddLock LockID s i) = words s \<and>
   input (AddLock LockID s i) = input s \<and> actor (AddLock LockID s i) = actor s \<and>
   where' (AddLock LockID s i) = where' s"
  by (simp add: AddLock_def Let_def split: option.split)

text \<open>
  Claim C8. Whatever the library functions splitting the text into words and
  upper-casing compute: for a text of exactly one word \<open>w\<close>, \<open>NewState\<close> sets
  \<open>cmd\<close> to the upper-cased word and leaves the word in both slices (\<open>words\<close> holds
  it upper-cased, as every entry of \<open>words\<close>, \<open>input\<close> as typed); for a text of two
  or more words the leading word becomes \<open>cmd\<close> and is removed from \<open>words\<close> and
  from \<open>input\<close>.
\<close>

theorem NewState_single_word_keeps_verb:
  fixes fields :: "string \<Rightarrow> string list" and upper :: "string \<Rightarrow> string"
  shows "(fields line = [w] \<longrightarrow>
            cmd (NewState LockID fields upper FindLocate t line) = upper w \<and>
            words (NewState LockID fields upper FindLocate t line) = [upper w] \<and>
            input (NewState LockID fields upper FindLocate t line) = [w]) \<and>
         (fields line = v # u # us \<longrightarrow>
            cmd (NewState LockID fields upper FindLocate t line) = upper v \<and>
            words (NewState LockID fields upper FindLocate t line) = map upper (u # us) \<and>
            input (NewState LockID fields upper FindLocate t line) = u # us)"
  by (simp add: NewState_def Let_def AddLock_fields split: option.split)

lemma Fields_look: "Fields ''look'' = [''look'']"
  by code_simp

lemma Fields_get: "Fields ''get  red ball'' = [''get'', ''red'', ''ball'']"
  by code_simp

lemma ToUpper_look: "ToUpper ''look'' = ''LOOK''"
  by code_simp

text \<open>
  The texts "look" and "get  red ball" with the ASCII versions of the library functions.
\<close>

theorem NewState_single_word_keeps_verb_witness:
  "Fields ''look'' = [''look''] \<and>
   cmd (NewState id Fields ToUpper (\<lambda>t. Some (Some (1::nat))) () ''look'') = ''LOOK'' \<and>
   words (NewState id Fields ToUpper (\<lambda>t. Some (Some (1::nat))) () ''look'') = [''LOOK''] \<and>
   input (NewState id Fields ToUpper (\<lambda>t. Some (Some (1::nat))) () ''look'') = [''look''] \<and>
   Fields ''get  red ball'' = [''get'', ''red'', ''ball''] \<and>
   cmd (NewState id Fields ToUpper (\<lambda>t. Some (Some (1::nat))) () ''get  red ball'') = ''GET'' \<and>
   words (NewState id Fields ToUpper (\<lambda>t. Some (Some (1::nat))) () ''get  red ball'') = [''RED'', ''BALL''] \<and>
   input (NewState id Fields ToUpper (\<lambda>t. Some (Some (1::nat))) () ''get  red ball'') = [''red'', ''ball'']"
proof -
  have u: "ToUpper ''get'' = ''GET''" "map ToUpper [''red'', ''ball''] = [''RED'', ''BALL'']"
    by code_simp+
  note a = NewState_single_word_keeps_verb
    [where fields = Fields and line = "''look''" and w = "''look''" and LockID = id
      and upper = ToUpper and FindLocate = "\<lambda>t. Some (Some (1::nat))" and t = "()",
      THEN conjunct1, rule_format, OF Fields_look]
  note b = NewState_single_word_keeps_verb
    [where fields = Fields and line = "''get  red ball''" and LockID = id
      and upper = ToUpper and FindLocate = "\<lambda>t. Some (Some (1::nat))" and t = "()"
      and v = "''get''" and u = "''red''" and us = "[''ball'']",
      THEN conjunct2, rule_format, OF Fields_get]
  show ?thesis
    using a b by (simp only: Fields_look Fields_get ToUpper_look u)
qed

lemma held_sync: "held (map Lock ls @ [Call] @ map Unlock (rev ls)) h = 0"
  by (simp add: held_append held_Lock held_Unlock count_list_rev)

lemma count_Lock_map: "count_list (map Lock ls) (Lock h) = count_list ls h"
  by (induction ls) simp_all

lemma count_Unlock_map: "count_list (map Unlock ls) (Unlock h) = count_list ls h"
  by (induction ls) simp_all

lemma count_Lock_Unlock_map: "count_list (map Unlock ls) (Lock h) = 0"
  by (induction ls) simp_all

lemma count_Unlock_Lock_map: "count_list (map Lock ls) (Unlock h) = 0"
  by (induction ls) simp_all

lemma count_list_append': "count_list (xs @ ys) x = count_list xs x + count_list ys x"
  by (induction xs) simp_all

text \<open>
  Claim C4. Whatever the dispatcher does (return, return early with the command not
  handled, or panic), \<open>sync\<close> hands its outcome on, and what is observed is: every
  inventory of the lock list as it was on entry is locked in list order, the dispatcher
  is called once, and the same inventories are unlocked in the reverse order. So the
  \<open>Lock\<close> and \<open>Unlock\<close> calls of every inventory are equal in number and no lock is
  held once \<open>sync\<close> is left.
\<close>

theorem sync_balanced:
  "fst (sync d s) = d s \<and>
   snd (sync d s) = map Lock (locks s) @ [Call] @ map Unlock (rev (locks s)) \<and>
   (\<forall>h. count_list (snd (sync d s)) (Lock h) = count_list (snd (sync d s)) (Unlock h)) \<and>
   (\<forall>h. held (snd (sync d s)) h = 0)"
  by (simp add: sync_eq held_sync [simplified] count_list_append' count_Lock_map
      count_Unlock_map count_Lock_Unlock_map count_Unlock_Lock_map count_list_rev)












text \<open>
  A dispatcher that returns early, the command not handled, with two locks listed.
\<close>

theorem sync_veto_example:
  "sync veto (state0\<lparr>locks := [2, 7]\<rparr>) =
     (Returned (state0\<lparr>locks := [2, 7]\<rparr>), [Lock 2, Lock 7, Call, Unlock 7, Unlock 2])"
  by code_simp

section \<open>Properties of package command\<close>

text \<open>
  Claim C2. The comment of \<open>Command.AddLock\<close> promises unique ID sequence lowest to
  highest and works the example of adding 4 to 3 7 9 to get 3 4 7 9. The loop compares
  \<open>uid > c.Locks[i].UniqueId()\<close>, so the new element goes in front of the first
  element with a smaller ID: adding 3 and then 7 gives 7 3, and the example of the
  comment ends as 9 7 4 3.
\<close>

theorem Command_AddLock_doc_example:
  "Locks (Command_AddLocks id command0 [3, 7]) = [7, 3] \<and>
   \<not> sorted (map id (Locks (Command_AddLocks id command0 [3, 7]))) \<and>
   Locks (Command_AddLocks id command0 [3, 7, 9, 4]) = [9, 7, 4, 3]"
  by code_simp













section \<open>Properties of the Action attribute\<close>

lemma frog_twice:
  "case run frog world0 [OpNewAction 8 4, OpSetParent 0 (Some 7), OpAction (Some 0) 100 1,
      OpAction (Some 0) 101 3] of
     Inl f \<Rightarrow> False
   | Inr w \<Rightarrow> map chan (pending w) = [1] \<and> map chan (cancelled w) = [0] \<and> fired w = [] \<and>
       Cancel (actions w 0) = Some 1 \<and> due (actions w 0) = 112"
  by code_simp

lemma inv_world0: "inv world0"
  by (simp add: inv_def world0_def)

lemma inv_NewAction: "inv w \<Longrightarrow> inv (fst (NewAction w aft jit))"
  unfolding inv_def NewAction_def by (auto simp: less_Suc_eq)

lemma inv_Copy: "inv w \<Longrightarrow> inv (fst (Copy w a'))"
  unfolding inv_def Copy_def NewAction_def by (cases a') (auto simp: less_Suc_eq)

lemma inv_SetParent:
  "inv w \<Longrightarrow> inv (w\<lparr>actions := (actions w)(a := (actions w a)\<lparr>parent := p\<rparr>)\<rparr>)"
  unfolding inv_def by auto

lemma inv_fire: "inv w \<Longrightarrow> inv (fire w ch)"
  unfolding inv_def fire_def by (auto simp: distinct_map_filter)

lemma Abort_nil_Cancel:
  "Cancel (actions w a) = None \<Longrightarrow> Abort w (Some a) = Inr w"
  by (simp add: Abort_def)

lemma Abort_Some_Cancel:
  "Cancel (actions w a) = Some ch \<Longrightarrow> ch \<notin> set (closed w) \<Longrightarrow>
   Abort w (Some a) =
     Inr (w\<lparr>closed := ch # closed w,
            pending := filter (\<lambda>e. chan e \<noteq> ch) (pending w),
            cancelled := cancelled w @ filter (\<lambda>e. chan e = ch) (pending w),
            actions := (actions w)(a := (actions w a)\<lparr>Cancel := None\<rparr>)\<rparr>)"
  by (simp add: Abort_def close_chan_def)

lemma inv_Abort_state:
  assumes "inv w" and "Cancel (actions w a) = Some ch"
  shows "inv (w\<lparr>closed := ch # closed w,
            pending := filter (\<lambda>e. chan e \<noteq> ch) (pending w),
            cancelled := cancelled w @ filter (\<lambda>e. chan e = ch) (pending w),
            actions := (actions w)(a := (actions w a)\<lparr>Cancel := None\<rparr>)\<rparr>)"
  using assms unfolding inv_def by (auto simp: distinct_map_filter)

lemma Abort_ok:
  assumes "inv w"
  shows "\<exists>w1. Abort w a' = Inr w1 \<and> inv w1 \<and> alloc w1 = alloc w \<and> nextChan w1 = nextChan w \<and>
     fired w1 = fired w \<and>
     (\<forall>a. a' = Some a \<longrightarrow>
        Cancel (actions w1 a) = None \<and> parent (actions w1 a) = parent (actions w a) \<and>
        after (actions w1 a) = after (actions w a) \<and>
        jitter (actions w1 a) = jitter (actions w a) \<and>
        pending w1 = filter (\<lambda>e. owner e \<noteq> a) (pending w) \<and>
        cancelled w1 = cancelled w @ filter (\<lambda>e. owner e = a) (pending w))"
proof (cases a')
  case None
  then show ?thesis
    using assms by (simp add: Abort_def)
next
  case (Some a)
  show ?thesis
  proof (cases "Cancel (actions w a)")
    case None
    have "owner e \<noteq> a" if "e \<in> set (pending w)" for e
      using assms that None unfolding inv_def by auto
    then have "filter (\<lambda>e. owner e \<noteq> a) (pending w) = pending w"
      "filter (\<lambda>e. owner e = a) (pending w) = []"
      by (simp_all add: filter_id_conv filter_empty_conv)
    then show ?thesis
      using assms None Some by (simp add: Abort_nil_Cancel)
  next
    case (Some ch)
    have o: "chan e = ch \<longleftrightarrow> owner e = a" if "e \<in> set (pending w)" for e
      using assms that Some unfolding inv_def by (metis option.inject)
    have f: "filter (\<lambda>e. chan e \<noteq> ch) (pending w) = filter (\<lambda>e. owner e \<noteq> a) (pending w)"
      "filter (\<lambda>e. chan e = ch) (pending w) = filter (\<lambda>e. owner e = a) (pending w)"
      using o by (auto intro: filter_cong)
    have n: "ch \<notin> set (closed w)"
      using assms Some unfolding inv_def by blast
    show ?thesis
      using inv_Abort_state [OF assms Some] \<open>a' = Some a\<close>
      by (simp add: Abort_Some_Cancel [OF Some n] f)
  qed
qed

lemma inv_Queue_state:
  assumes "inv w" and "Cancel (actions w a) = None" and "a < alloc w"
    and "chan ev = nextChan w" and "owner ev = a"
  shows "inv (w\<lparr>pending := pending w @ [ev], nextChan := nextChan w + 1,
            actions := (actions w)(a := (actions w a)\<lparr>Cancel := Some (nextChan w), due := d\<rparr>)\<rparr>)"
proof -
  have fresh: "chan e \<noteq> nextChan w"
    if "e \<in> set (pending w) \<union> set (fired w) \<union> set (cancelled w)" for e
    using assms(1) that unfolding inv_def by (metis less_irrefl)
  have own: "owner e \<noteq> a" if "e \<in> set (pending w)" for e
    using assms(1,2) that unfolding inv_def by auto
  show ?thesis
    using assms fresh own unfolding inv_def
    by (auto simp: less_Suc_eq image_iff)
qed

lemma Action_ok:
  assumes "inv w" and "a < alloc w"
  shows "\<exists>w'. Action_Action F w (Some a) now rnd = Inr w' \<and> inv w' \<and> alloc w' = alloc w \<and>
     fired w' = fired w \<and> cancelled w' = cancelled w @ pending_of w a \<and>
     (case F (parent (actions w a)) of
        None \<Rightarrow> pending w' = filter (\<lambda>e. owner e \<noteq> a) (pending w) \<and>
          Cancel (actions w' a) = None
      | Some txt \<Rightarrow>
          (\<exists>ev. pending w' = filter (\<lambda>e. owner e \<noteq> a) (pending w) @ [ev] \<and>
             chan ev = nextChan w \<and> owner ev = a \<and> entity ev = parent (actions w a) \<and>
             command ev = ''$ACTION '' @ txt \<and> Cancel (actions w' a) = Some (nextChan w)))"
proof -
  obtain w1 where w1: "Abort w (Some a) = Inr w1" "inv w1" "alloc w1 = alloc w"
    "nextChan w1 = nextChan w" "fired w1 = fired w" "Cancel (actions w1 a) = None"
    "parent (actions w1 a) = parent (actions w a)"
    "pending w1 = filter (\<lambda>e. owner e \<noteq> a) (pending w)"
    "cancelled w1 = cancelled w @ filter (\<lambda>e. owner e = a) (pending w)"
    using Abort_ok [OF assms(1), of "Some a"] by auto
  show ?thesis
  proof (cases "F (parent (actions w a))")
    case None
    then show ?thesis
      using w1 by (simp add: Action_Action_def pending_of_def)
  next
    case (Some msg)
    let ?ev = "\<lparr>chan = nextChan w1, owner = a, entity = parent (actions w1 a),
      command = ''$ACTION '' @ msg,
      fire_time = now + after (actions w1 a) +
        (if jitter (actions w1 a) > 0 then rnd mod jitter (actions w1 a) else 0)\<rparr>"
    let ?d = "now + after (actions w1 a) +
        (if jitter (actions w1 a) > 0 then rnd mod jitter (actions w1 a) else 0)"
    let ?w' = "w1\<lparr>pending := pending w1 @ [?ev], nextChan := nextChan w1 + 1,
            actions := (actions w1)(a := (actions w1 a)\<lparr>Cancel := Some (nextChan w1), due := ?d\<rparr>)\<rparr>"
    have i: "inv ?w'"
      using w1 assms(2) by (intro inv_Queue_state) simp_all
    have e: "Action_Action F w (Some a) now rnd = Inr ?w'"
      using w1 Some by (simp add: Action_Action_def Queue_def Let_def)
    show ?thesis
      using i w1 Some unfolding e by (simp add: pending_of_def)
  qed
qed

lemma inv_Free:
  assumes "inv w"
  shows "\<exists>w'. Free w a' = Inr w' \<and> inv w'"
proof (cases a')
  case None
  then show ?thesis
    using assms by (simp add: Free_def)
next
  case (Some a)
  obtain w1 where "Abort w (Some a) = Inr w1" "inv w1"
    using Abort_ok [OF assms, of "Some a"] by auto
  then show ?thesis
    using Some inv_SetParent [of w1 a None] by (simp add: Free_def)
qed

lemma inv_exec:
  assumes "inv w"
  shows "exec F w x = Inl InvalidPointer \<or> (\<exists>w'. exec F w x = Inr w' \<and> inv w')"
proof (cases x)
  case (OpNewAction aft jit)
  then show ?thesis
    using assms by (simp add: inv_NewAction)
next
  case (OpSetParent a p)
  then show ?thesis
    using assms by (simp add: inv_SetParent)
next
  case (OpCopy a)
  then show ?thesis
    using assms by (simp add: inv_Copy)
next
  case (OpAction a' now rnd)
  show ?thesis
  proof (cases a')
    case None
    then show ?thesis
      using assms OpAction by (simp add: Action_Action_def)
  next
    case (Some a)
    show ?thesis
    proof (cases "a < alloc w")
      case True
      obtain w' where "Action_Action F w (Some a) now rnd = Inr w'" "inv w'"
        using Action_ok [OF assms True, of F now rnd] by blast
      then show ?thesis
        using OpAction Some by simp
    next
      case False
      then show ?thesis
        using OpAction Some by (simp add: valid_def)
    qed
  qed
next
  case (OpAbort a)
  obtain w1 where "Abort w a = Inr w1" "inv w1"
    using Abort_ok [OF assms, of a] by blast
  then show ?thesis
    using OpAbort by simp
next
  case (OpFree a)
  then show ?thesis
    using inv_Free [OF assms, of a] by auto
next
  case (OpFire ch)
  then show ?thesis
    using assms by (simp add: inv_fire)
qed

lemma inv_run:
  "inv w \<Longrightarrow> run F w xs = Inl InvalidPointer \<or> (\<exists>w'. run F w xs = Inr w' \<and> inv w')"
proof (induction xs arbitrary: w)
  case Nil
  then show ?case by simp
next
  case (Cons x xs)
  from inv_exec [OF Cons.prems, of F x] show ?case
  proof
    assume "exec F w x = Inl InvalidPointer"
    then show ?thesis by simp
  next
    assume "\<exists>w'. exec F w x = Inr w' \<and> inv w'"
    then obtain w1 where "exec F w x = Inr w1" "inv w1"
      by blast
    then show ?thesis
      using Cons.IH [of w1] by simp
  qed
qed

lemma run_append:
  "run F w (xs @ ys) = (case run F w xs of Inl f \<Rightarrow> Inl f | Inr w1 \<Rightarrow> run F w1 ys)"
  by (induction xs arbitrary: w) (simp_all split: sum.split)

lemma reachable_inv: "run F world0 xs = Inr w \<Longrightarrow> inv w"
  using inv_run [OF inv_world0, of F xs] by auto

lemma length_le1_if_all_equal:
  assumes "distinct xs" and "\<forall>x \<in> set xs. x = k"
  shows "length xs \<le> 1"
proof -
  have "set xs \<subseteq> {k}"
    using assms(2) by blast
  then have "card (set xs) \<le> card {k}"
    by (intro card_mono) simp_all
  then show ?thesis
    using assms(1) by (simp add: distinct_card)
qed

lemma pending_of_le1:
  assumes "inv w"
  shows "length (pending_of w a) \<le> 1"
proof -
  have "distinct (map chan (pending_of w a))"
    using assms unfolding inv_def pending_of_def by (simp add: distinct_map_filter)
  moreover have "\<forall>c \<in> set (map chan (pending_of w a)). Some c = Cancel (actions w a)"
    using assms unfolding inv_def pending_of_def by auto
  then have "\<forall>c \<in> set (map chan (pending_of w a)). c = the (Cancel (actions w a))"
    by (metis option.sel)
  ultimately have "length (map chan (pending_of w a)) \<le> 1"
    by (rule length_le1_if_all_equal)
  then show ?thesis
    by simp
qed

lemma pending_of_Cancel:
  "inv w \<Longrightarrow> pending_of w a \<noteq> [] \<Longrightarrow> Cancel (actions w a) \<noteq> None"
proof -
  assume i: "inv w" and n: "pending_of w a \<noteq> []"
  then have "set (pending_of w a) \<noteq> {}"
    by simp
  then obtain e where "e \<in> set (pending w)" "owner e = a"
    unfolding pending_of_def by auto
  then show ?thesis
    using i unfolding inv_def by auto
qed

lemma pending_of_after_Action:
  "pending w' = filter (\<lambda>e. owner e \<noteq> a) (pending w) @ [ev] \<Longrightarrow> owner ev = a \<Longrightarrow>
   pending_of w' a = [ev]"
  by (simp add: pending_of_def)

lemma pending_of_after_Action_none:
  "pending w' = filter (\<lambda>e. owner e \<noteq> a) (pending w) \<Longrightarrow> pending_of w' a = []"
  by (simp add: pending_of_def)

text \<open>
  Claim C5. In every world reached by making, copying, freeing and aborting Action
  attributes, calling \<open>Action\<close> and letting pending events fire: an attribute has at
  most one pending event, and when it has one its \<open>Cancel\<close> channel is not nil; no
  event has fired twice and no cancelled event has fired. A call of \<open>Action\<close> on an
  attribute does not panic; it moves the event the attribute had pending to the
  cancelled events before it queues, and afterwards the attribute has no pending event
  when no OnAction is found, and otherwise exactly the new one, on a new channel that
  the attribute holds.
\<close>

theorem Action_replaces_pending_event:
  assumes "run F world0 xs = Inr w" and "a < alloc w"
  shows "length (pending_of w a) \<le> 1 \<and>
         (pending_of w a \<noteq> [] \<longrightarrow> Pending w (Some a) = Inr True) \<and>
         distinct (map chan (fired w)) \<and>
         chan ` set (fired w) \<inter> chan ` set (cancelled w) = {} \<and>
         (\<exists>w'. Action_Action F w (Some a) now rnd = Inr w' \<and>
            run F world0 (xs @ [OpAction (Some a) now rnd]) = Inr w' \<and>
            set (pending_of w a) \<subseteq> set (cancelled w') \<and>
            set (pending_of w a) \<inter> set (pending w') = {} \<and>
            fired w' = fired w \<and>
            length (pending_of w' a) \<le> 1 \<and>
            (\<forall>e \<in> set (pending_of w' a). chan e = nextChan w \<and>
               Cancel (actions w' a) = Some (chan e)) \<and>
            (pending_of w' a = [] \<longleftrightarrow> F (parent (actions w a)) = None))"
proof -
  have i: "inv w"
    using assms(1) by (rule reachable_inv)
  have p1: "length (pending_of w a) \<le> 1"
    using i by (rule pending_of_le1)
  have p2: "pending_of w a \<noteq> [] \<longrightarrow> Pending w (Some a) = Inr True"
    using pending_of_Cancel [OF i, of a] by (simp add: Pending_def)
  have p3: "distinct (map chan (fired w))"
    using i unfolding inv_def by (elim conjE)
  have p4: "chan ` set (fired w) \<inter> chan ` set (cancelled w) = {}"
    using i unfolding inv_def by (elim conjE)
  obtain w' where w': "Action_Action F w (Some a) now rnd = Inr w'" "inv w'"
    "fired w' = fired w" "cancelled w' = cancelled w @ pending_of w a"
    and c: "case F (parent (actions w a)) of
        None \<Rightarrow> pending w' = filter (\<lambda>e. owner e \<noteq> a) (pending w) \<and>
          Cancel (actions w' a) = None
      | Some msg \<Rightarrow>
          (\<exists>ev. pending w' = filter (\<lambda>e. owner e \<noteq> a) (pending w) @ [ev] \<and>
             chan ev = nextChan w \<and> owner ev = a \<and> entity ev = parent (actions w a) \<and>
             command ev = ''$ACTION '' @ msg \<and> Cancel (actions w' a) = Some (nextChan w))"
    using Action_ok [OF i assms(2), of F now rnd] by blast
  have r: "run F world0 (xs @ [OpAction (Some a) now rnd]) = Inr w'"
    using assms w'(1) by (simp add: run_append valid_def)
  have q1: "set (pending_of w a) \<subseteq> set (cancelled w')"
    using w'(4) by simp
  have fresh: "chan e \<noteq> nextChan w" if "e \<in> set (pending w)" for e
  proof -
    have "\<forall>e \<in> set (pending w) \<union> set (fired w) \<union> set (cancelled w). chan e < nextChan w"
      using i unfolding inv_def by (elim conjE)
    then have "chan e < nextChan w"
      using that by simp
    then show ?thesis
      by simp
  qed
  have q2: "set (pending_of w a) \<inter> set (pending w') = {}"
  proof (cases "F (parent (actions w a))")
    case None
    then show ?thesis
      using c by (auto simp: pending_of_def)
  next
    case (Some msg)
    then obtain ev where "pending w' = filter (\<lambda>e. owner e \<noteq> a) (pending w) @ [ev]"
      "chan ev = nextChan w"
      using c by auto
    then show ?thesis
      using fresh by (auto simp: pending_of_def)
  qed
  have q3: "length (pending_of w' a) \<le> 1"
    using w'(2) by (rule pending_of_le1)
  have q4: "(\<forall>e \<in> set (pending_of w' a). chan e = nextChan w \<and>
               Cancel (actions w' a) = Some (chan e)) \<and>
            (pending_of w' a = [] \<longleftrightarrow> F (parent (actions w a)) = None)"
  proof (cases "F (parent (actions w a))")
    case None
    then show ?thesis
      using c by (simp add: pending_of_after_Action_none)
  next
    case (Some msg)
    then obtain ev where "pending w' = filter (\<lambda>e. owner e \<noteq> a) (pending w) @ [ev]"
      "chan ev = nextChan w" "owner ev = a" "Cancel (actions w' a) = Some (nextChan w)"
      using c by auto
    then show ?thesis
      using Some by (simp add: pending_of_after_Action [of w' a w ev])
  qed
  from w'(1) r q1 q2 w'(3) q3 q4
  have "Action_Action F w (Some a) now rnd = Inr w' \<and>
            run F world0 (xs @ [OpAction (Some a) now rnd]) = Inr w' \<and>
            set (pending_of w a) \<subseteq> set (cancelled w') \<and>
            set (pending_of w a) \<inter> set (pending w') = {} \<and>
            fired w' = fired w \<and>
            length (pending_of w' a) \<le> 1 \<and>
            (\<forall>e \<in> set (pending_of w' a). chan e = nextChan w \<and>
               Cancel (actions w' a) = Some (chan e)) \<and>
            (pending_of w' a = [] \<longleftrightarrow> F (parent (actions w a)) = None)"
    by (intro conjI) (elim conjE, assumption)+
  then have ex: "\<exists>w'. Action_Action F w (Some a) now rnd = Inr w' \<and>
            run F world0 (xs @ [OpAction (Some a) now rnd]) = Inr w' \<and>
            set (pending_of w a) \<subseteq> set (cancelled w') \<and>
            set (pending_of w a) \<inter> set (pending w') = {} \<and>
            fired w' = fired w \<and>
            length (pending_of w' a) \<le> 1 \<and>
            (\<forall>e \<in> set (pending_of w' a). chan e = nextChan w \<and>
               Cancel (actions w' a) = Some (chan e)) \<and>
            (pending_of w' a = [] \<longleftrightarrow> F (parent (actions w a)) = None)"
    by (rule exI)
  from p1 p2 p3 p4 ex show ?thesis
    by (intro conjI)
qed

text \<open>
  The frog: an action is scheduled at time 100 and again at time 101. The first event
  (channel 0) is cancelled, the second (channel 1) is the only one pending.
\<close>

theorem Action_replaces_pending_event_witness:
  "\<exists>w w'. run frog world0 [OpNewAction 8 4, OpSetParent 0 (Some 7), OpAction (Some 0) 100 1] = Inr w \<and>
     0 < alloc w \<and> map chan (pending_of w 0) = [0] \<and>
     Action_Action frog w (Some 0) 101 3 = Inr w' \<and>
     set (pending_of w 0) \<subseteq> set (cancelled w') \<and>
     length (pending_of w' 0) \<le> 1 \<and>
     map chan (pending_of w' 0) = [1] \<and> map chan (cancelled w') = [0] \<and> fired w' = []"
proof -
  let ?xs = "[OpNewAction 8 4, OpSetParent 0 (Some 7), OpAction (Some 0) 100 1]"
  define w where "w = projr (run frog world0 ?xs)"
  have "\<not> isl (run frog world0 ?xs)"
    by code_simp
  then have r: "run frog world0 ?xs = Inr w"
    unfolding w_def by simp
  have a: "0 < alloc w"
    unfolding w_def by code_simp
  have p: "map chan (pending_of w 0) = [0]"
    unfolding w_def by code_simp
  from Action_replaces_pending_event [OF r a, of 101 3] obtain w' where
    w': "Action_Action frog w (Some 0) 101 3 = Inr w'"
    "run frog world0 (?xs @ [OpAction (Some 0) 101 3]) = Inr w'"
    "set (pending_of w 0) \<subseteq> set (cancelled w')"
    "length (pending_of w' 0) \<le> 1"
    by blast
  have e: "w' = projr (run frog world0 (?xs @ [OpAction (Some 0) 101 3]))"
    using w'(2) by simp
  have q: "map chan (pending_of w' 0) = [1]" "map chan (cancelled w') = [0]" "fired w' = []"
    unfolding e by code_simp+
  have c: "run frog world0 ?xs = Inr w \<and>
     0 < alloc w \<and> map chan (pending_of w 0) = [0] \<and>
     Action_Action frog w (Some 0) 101 3 = Inr w' \<and>
     set (pending_of w 0) \<subseteq> set (cancelled w') \<and>
     length (pending_of w' 0) \<le> 1 \<and>
     map chan (pending_of w' 0) = [1] \<and> map chan (cancelled w') = [0] \<and> fired w' = []"
    by (intro conjI) (fact r a p w'(1,3,4) q)+
  show ?thesis
    by (rule exI [of _ w], rule exI [of _ w'], rule c)
qed

text \<open>
  Claim C9. \<open>Copy\<close> of a nil pointer is nil. \<open>Copy\<close> of an attribute makes a new
  attribute with the same \<open>after\<close>, \<open>jitter\<close> and \<open>due\<close> and a nil \<open>Cancel\<close>, so
  \<open>Pending\<close> is false for the copy; the original is unchanged, so its \<open>Pending\<close>
  answers as before, and the scheduler is untouched: no event is cancelled or queued
  and no channel is closed or made.
\<close>

theorem Copy_has_no_pending_event:
  assumes "a < alloc w"
  shows "Copy w None = (w, None) \<and>
         snd (Copy w (Some a)) = Some (alloc w) \<and>
         after (actions (fst (Copy w (Some a))) (alloc w)) = after (actions w a) \<and>
         jitter (actions (fst (Copy w (Some a))) (alloc w)) = jitter (actions w a) \<and>
         due (actions (fst (Copy w (Some a))) (alloc w)) = due (actions w a) \<and>
         Cancel (actions (fst (Copy w (Some a))) (alloc w)) = None \<and>
         Pending (fst (Copy w (Some a))) (Some (alloc w)) = Inr False \<and>
         actions (fst (Copy w (Some a))) a = actions w a \<and>
         Pending (fst (Copy w (Some a))) (Some a) = Pending w (Some a) \<and>
         pending (fst (Copy w (Some a))) = pending w \<and>
         fired (fst (Copy w (Some a))) = fired w \<and>
         cancelled (fst (Copy w (Some a))) = cancelled w \<and>
         closed (fst (Copy w (Some a))) = closed w \<and>
         nextChan (fst (Copy w (Some a))) = nextChan w"
  using assms by (simp add: Copy_def NewAction_def Pending_def)

text \<open>
  The frog with an event in flight: the original is pending, its copy is not.
\<close>

theorem Copy_has_no_pending_event_witness:
  "\<exists>w. run frog world0 [OpNewAction 8 4, OpSetParent 0 (Some 7), OpAction (Some 0) 100 1] = Inr w \<and>
     0 < alloc w \<and> Pending w (Some 0) = Inr True \<and> map chan (pending w) = [0] \<and>
     snd (Copy w (Some 0)) = Some 1 \<and>
     Pending (fst (Copy w (Some 0))) (Some 1) = Inr False \<and>
     Pending (fst (Copy w (Some 0))) (Some 0) = Inr True \<and>
     after (actions (fst (Copy w (Some 0))) 1) = 8 \<and>
     jitter (actions (fst (Copy w (Some 0))) 1) = 4 \<and>
     due (actions (fst (Copy w (Some 0))) 1) = 109 \<and>
     map chan (pending (fst (Copy w (Some 0)))) = [0] \<and>
     closed (fst (Copy w (Some 0))) = []"
proof -
  let ?xs = "[OpNewAction 8 4, OpSetParent 0 (Some 7), OpAction (Some 0) 100 1]"
  define w where "w = projr (run frog world0 ?xs)"
  have "\<not> isl (run frog world0 ?xs)"
    by code_simp
  then have r: "run frog world0 ?xs = Inr w"
    unfolding w_def by simp
  have a: "0 < alloc w"
    unfolding w_def by code_simp
  have v: "alloc w = 1" "Pending w (Some 0) = Inr True" "map chan (pending w) = [0]"
    "after (actions w 0) = 8" "jitter (actions w 0) = 4" "due (actions w 0) = 109"
    "closed w = []"
    unfolding w_def by code_simp+
  note t = Copy_has_no_pending_event [OF a, unfolded v]
  have c: "run frog world0 ?xs = Inr w \<and>
     0 < alloc w \<and> Pending w (Some 0) = Inr True \<and> map chan (pending w) = [0] \<and>
     snd (Copy w (Some 0)) = Some 1 \<and>
     Pending (fst (Copy w (Some 0))) (Some 1) = Inr False \<and>
     Pending (fst (Copy w (Some 0))) (Some 0) = Inr True \<and>
     after (actions (fst (Copy w (Some 0))) 1) = 8 \<and>
     jitter (actions (fst (Copy w (Some 0))) 1) = 4 \<and>
     due (actions (fst (Copy w (Some 0))) 1) = 109 \<and>
     map chan (pending (fst (Copy w (Some 0)))) = [0] \<and>
     closed (fst (Copy w (Some 0))) = []"
    using t r a v(2,3) by simp
  show ?thesis
    by (rule exI [of _ w], rule c)
qed

section \<open>Properties of Hit, createCorpse and the Combat roles\<close>

theorem Combat_roles_swap_count:
  "length Int63n_101 = 101 \<and>
   length (filter (\<lambda>r. Combat_roles 1 2 r = (2, 1)) Int63n_101) = 50 \<and>
   length (filter (\<lambda>r. Combat_roles 1 2 r = (1, 2)) Int63n_101) = 51 \<and>
   Combat_roles 1 2 49 = (2, 1) \<and> Combat_roles 1 2 50 = (1, 2) \<and> Combat_roles 1 2 100 = (1, 2)"
  by code_simp

lemma center_ok: "length s \<le> 81 \<Longrightarrow> \<exists>c. center s = Inr c"
proof -
  assume "length s \<le> 81"
  then have "80 - int (length s) \<ge> - 1"
    by simp
  then have "quot (80 - int (length s)) 2 \<ge> 0"
    unfolding quot_def by (cases "80 - int (length s) = - 1") (simp_all add: sgn_if)
  then show ?thesis
    by (simp add: center_def Let_def)
qed

lemma center_panics: "82 \<le> length s \<Longrightarrow> center s = Inl NegativeRepeatCount"
proof -
  assume "82 \<le> length s"
  then have "80 - int (length s) \<le> - 2"
    by simp
  then have "\<bar>80 - int (length s)\<bar> div 2 \<ge> 1" "sgn (80 - int (length s)) = - 1"
    by (simp_all add: sgn_if)
  then have "quot (80 - int (length s)) 2 < 0"
    unfolding quot_def by simp
  then show ?thesis
    by (simp add: center_def Let_def)
qed

lemma rest_in_peace_ok:
  assumes "length (As W Name) \<le> 81" and "length (As A Name) \<le> 81"
  shows "\<exists>rip. rest_in_peace A W d = Inr rip"
proof -
  obtain c1 where c1: "center '' :==[ Rest In Peace ]==:'' = Inr c1"
    using center_ok [of "'' :==[ Rest In Peace ]==:''"] by auto
  obtain c3 where c3: "center ''Slain By'' = Inr c3"
    using center_ok [of "''Slain By''"] by auto
  obtain c2 where c2: "center (As W Name) = Inr c2"
    using center_ok [OF assms(1)] by auto
  obtain c4 where c4: "center (As A Name) = Inr c4"
    using center_ok [OF assms(2)] by auto
  show ?thesis
    by (simp add: rest_in_peace_def c1 c2 c3 c4)
qed

lemma rest_in_peace_panics:
  "82 \<le> length (As W Name) \<Longrightarrow> rest_in_peace A W d = Inl NegativeRepeatCount"
  using center_ok [of "'' :==[ Rest In Peace ]==:''"]
  by (auto simp: rest_in_peace_def center_panics)

lemma get_put: "get (put m k v) k' = (if k' = k then Some v else get m k')"
  by (induction m) auto

lemma get_del: "get (del m k) k' = (if k' = k then None else get m k')"
  by (induction m) auto

lemma createCorpse_ok:
  assumes "Ref (things w t) Where = Some l" and "t < next_thing w" and "l < next_thing w"
  shows "\<exists>w'. createCorpse w uid t = Inr (w', next_thing w) \<and>
     next_thing w' = next_thing w + 1 \<and> effects w' = effects w \<and>
     things w' l = (things w l)\<lparr>In := put (In (things w l)) uid t\<rparr> \<and>
     (\<forall>a. a \<noteq> l \<and> a \<noteq> next_thing w \<longrightarrow> things w' a = things w a) \<and>
     is_corpse_of (things w' (next_thing w)) (things w t) uid l"
  using assms by (simp add: createCorpse_def NewThing_def upd_def Let_def is_corpse_of_def)

end
